theory Spec2Isabelle
  imports Main "HOL-Library.Sublist"
begin

section \<open>aioevproc: the event-dispatch engine\<close>

text \<open>
  The development embeds \<^verbatim>\<open>src/aioevproc/__init__.py\<close>: the decorator
  \<^verbatim>\<open>handler\<close>, the registry construction \<^verbatim>\<open>EventsProcessor.__init_subclass__\<close>
  and the dispatch \<^verbatim>\<open>EventsProcessor.process_event\<close>.

  User callbacks (predicates, handler methods, awaited coroutines, context managers) are
  opaque to the engine. Every occurrence of a callback in the registry is called at most
  once per dispatch, so an occurrence is represented by what its call does for the event:
  it raises, or it returns a value. What the engine does with the callbacks is observable
  as a trace of actions, in program order.
\<close>

subsection \<open>Python values and exceptions\<close>

datatype exn = AssertionError | TypeError | RuntimeError | UserError nat

text \<open>
  A context manager (sync: \<^verbatim>\<open>__enter__\<close>/\<^verbatim>\<open>__exit__\<close>, async:
  \<^verbatim>\<open>__aenter__\<close>/\<^verbatim>\<open>__aexit__\<close>). Entering returns (\<open>None\<close>) or raises
  (\<open>Some e\<close>). Exiting receives the exception that is propagating (\<open>Some e\<close>) or none,
  and raises (\<open>Inl e'\<close>) or returns a value whose truthiness (\<open>Inr b\<close>) asks for
  suppression.
\<close>

record scope =
  scope_id :: nat
  scope_enter :: "exn option"
  scope_exit :: "exn option \<Rightarrow> exn + bool"

text \<open>
  The values a handler method can hand back. A coroutine is represented by the outcome
  of awaiting it. \<open>PObj b\<close> is an object of any other class, with the truth value
  \<open>b\<close> that its \<^verbatim>\<open>__bool__\<close>/\<^verbatim>\<open>__len__\<close> gives. An object
  that implements both context-manager protocols is a \<open>PAsyncCM\<close>: the source tests
  \<^verbatim>\<open>AsyncContextManager\<close> first.
\<close>

datatype pyval =
    PNone
  | PBool bool
  | PInt int
  | PStr string
  | PList "pyval list"
  | PObj bool
  | PCoroutine "exn + pyval"
  | PAsyncCM scope
  | PSyncCM scope

text \<open>Python truth value testing, as \<^verbatim>\<open>if not call_next_handlers\<close> applies it.\<close>

fun truthy :: "pyval \<Rightarrow> bool" where
  "truthy PNone = False"
| "truthy (PBool b) = b"
| "truthy (PInt i) = (i \<noteq> 0)"
| "truthy (PStr s) = (s \<noteq> [])"
| "truthy (PList xs) = (xs \<noteq> [])"
| "truthy (PObj b) = b"
| "truthy (PCoroutine r) = True"
| "truthy (PAsyncCM cm) = True"
| "truthy (PSyncCM cm) = True"

subsection \<open>Predicates, handler methods, the registry\<close>

text \<open>
  \<^verbatim>\<open>EventPredicate = Callable[[Event], bool]\<close>: the call raises, or returns a value
  of which \<^verbatim>\<open>all(...)\<close> takes the truth value.
\<close>

record 'ev predicate =
  pred_id :: nat
  pred_call :: "'ev \<Rightarrow> exn + bool"

text \<open>
  A function object of the class body. \<open>hm_attr\<close> is its attribute
  \<^verbatim>\<open>__handler_predicates__\<close>: \<open>None\<close> when \<^verbatim>\<open>hasattr\<close> is false,
  \<open>Some None\<close> when the attribute is Python's \<^verbatim>\<open>None\<close>, \<open>Some (Some l)\<close>
  when it is the list \<open>l\<close> of predicate tuples.
\<close>

record 'ev handler_method =
  hm_name :: string
  hm_call :: "'ev \<Rightarrow> exn + pyval"
  hm_attr :: "'ev predicate list list option option"

type_synonym 'ev registry = "('ev predicate list list option \<times> 'ev handler_method) list"

datatype action =
    PredCalled nat
  | Invoked string
  | Entered nat
  | Exited nat "exn option"

subsection \<open>The decorator \<^verbatim>\<open>handler\<close>\<close>

text \<open>
  \<^verbatim>\<open>handler(*predicates)(handler_method)\<close>, lines 32-43. The \<^verbatim>\<open>assert\<close>
  statements are those of the interpreter's default mode.
\<close>

definition handler :: "'ev predicate list \<Rightarrow> 'ev handler_method \<Rightarrow> exn + 'ev handler_method" where
  "handler predicates handler_method =
     (if predicates = [] then
        (if hm_attr handler_method \<noteq> None then Inl AssertionError
         else Inr (handler_method\<lparr>hm_attr := Some None\<rparr>))
      else
        (let hm = (if hm_attr handler_method = None
                   then handler_method\<lparr>hm_attr := Some (Some [])\<rparr>
                   else handler_method)
         in case hm_attr hm of
              Some (Some handler_predicates) \<Rightarrow>
                Inr (hm\<lparr>hm_attr := Some (Some (handler_predicates @ [predicates]))\<rparr>)
            | _ \<Rightarrow> Inl AssertionError))"

text \<open>
  Stacked decorators, listed top to bottom as in the source text of the class body:
  Python applies the one closest to the \<^verbatim>\<open>def\<close> first, and an exception raised by
  one of them leaves the others unapplied.
\<close>

fun decorate :: "'ev predicate list list \<Rightarrow> 'ev handler_method \<Rightarrow> exn + 'ev handler_method" where
  "decorate [] handler_method = Inr handler_method"
| "decorate (predicates # below) handler_method =
     (case decorate below handler_method of
        Inl e \<Rightarrow> Inl e
      | Inr hm \<Rightarrow> handler predicates hm)"

subsection \<open>\<^verbatim>\<open>EventsProcessor.__init_subclass__\<close>\<close>

text \<open>
  \<open>cls_dict\<close> is \<^verbatim>\<open>cls.__dict__\<close>, the members of the class body in insertion
  order. Lines 58-69.
\<close>

definition init_subclass :: "(string \<times> 'ev handler_method) list \<Rightarrow> 'ev registry" where
  "init_subclass cls_dict =
     concat (map (\<lambda>(name, handler_method).
        case hm_attr handler_method of
          None \<Rightarrow> []
        | Some predicates \<Rightarrow>
            [(case predicates of None \<Rightarrow> None | Some l \<Rightarrow> Some (rev l), handler_method)])
      cls_dict)"

text \<open>
  The class statement: each \<^verbatim>\<open>def\<close> of the body, with its decorators, is bound to
  its name in the class namespace (a dict: a name bound again keeps its place); an
  exception in the body aborts the statement and no class exists. Otherwise the class is
  created and \<^verbatim>\<open>__init_subclass__\<close> stores its \<^verbatim>\<open>_handlers\<close>.
\<close>

record 'ev method_def =
  md_name :: string
  md_decorators :: "'ev predicate list list"
  md_call :: "'ev \<Rightarrow> exn + pyval"

text \<open>The function object that a \<^verbatim>\<open>def\<close> creates, before any decorator.\<close>

definition new_function :: "'ev method_def \<Rightarrow> 'ev handler_method" where
  "new_function d = \<lparr>hm_name = md_name d, hm_call = md_call d, hm_attr = None\<rparr>"

fun bind :: "string \<Rightarrow> 'v \<Rightarrow> (string \<times> 'v) list \<Rightarrow> (string \<times> 'v) list" where
  "bind k v [] = [(k, v)]"
| "bind k v ((k', v') # ns) = (if k' = k then (k, v) # ns else (k', v') # bind k v ns)"

fun class_body ::
  "'ev method_def list \<Rightarrow> (string \<times> 'ev handler_method) list
     \<Rightarrow> exn + (string \<times> 'ev handler_method) list" where
  "class_body [] ns = Inr ns"
| "class_body (d # ds) ns =
     (case decorate (md_decorators d) (new_function d) of
        Inl e \<Rightarrow> Inl e
      | Inr hm \<Rightarrow> class_body ds (bind (md_name d) hm ns))"

definition class_statement :: "'ev method_def list \<Rightarrow> exn + 'ev registry" where
  "class_statement body =
     (case class_body body [] of
        Inl e \<Rightarrow> Inl e
      | Inr cls_dict \<Rightarrow> Inr (init_subclass cls_dict))"

subsection \<open>\<^verbatim>\<open>EventsProcessor.process_event\<close>\<close>

text \<open>\<^verbatim>\<open>all(pred(event) for pred in and_predicates)\<close>, line 75.\<close>

fun all_preds :: "'ev \<Rightarrow> 'ev predicate list \<Rightarrow> (exn + bool) \<times> action list" where
  "all_preds event [] = (Inr True, [])"
| "all_preds event (pred # and_predicates) =
     (case pred_call pred event of
        Inl e \<Rightarrow> (Inl e, [PredCalled (pred_id pred)])
      | Inr b \<Rightarrow>
          if b then (case all_preds event and_predicates of
                       (r, t) \<Rightarrow> (r, PredCalled (pred_id pred) # t))
          else (Inr False, [PredCalled (pred_id pred)]))"

text \<open>\<^verbatim>\<open>any(all(...) for and_predicates in or_predicates)\<close>, lines 74-77.\<close>

fun any_all :: "'ev \<Rightarrow> 'ev predicate list list \<Rightarrow> (exn + bool) \<times> action list" where
  "any_all event [] = (Inr False, [])"
| "any_all event (and_predicates # or_predicates) =
     (case all_preds event and_predicates of
        (Inl e, t) \<Rightarrow> (Inl e, t)
      | (Inr b, t) \<Rightarrow>
          if b then (Inr True, t)
          else (case any_all event or_predicates of (r, t') \<Rightarrow> (r, t @ t')))"

text \<open>
  The condition of line 74, under which the loop executes \<^verbatim>\<open>continue\<close>:
  \<^verbatim>\<open>or_predicates is not None and not any(...)\<close>.
\<close>

definition skip_handler ::
  "'ev \<Rightarrow> 'ev predicate list list option \<Rightarrow> (exn + bool) \<times> action list" where
  "skip_handler event or_predicates =
     (case or_predicates of
        None \<Rightarrow> (Inr False, [])
      | Some ors \<Rightarrow>
          (case any_all event ors of
             (Inl e, t) \<Rightarrow> (Inl e, t)
           | (Inr b, t) \<Rightarrow> (Inr (\<not> b), t)))"

text \<open>
  \<^verbatim>\<open>contextlib.AsyncExitStack\<close> is Python's standard library; the engine uses
  \<^verbatim>\<open>enter_context\<close>, \<^verbatim>\<open>enter_async_context\<close> and, through
  \<^verbatim>\<open>async with\<close>, \<^verbatim>\<open>__aexit__\<close>. The stack of exit callbacks is a list, most
  recently pushed first. Entering calls the manager's enter method and pushes its exit
  method only when the enter method has returned.
\<close>

definition enter_context :: "scope \<Rightarrow> scope list \<Rightarrow> exn option \<times> scope list \<times> action list" where
  "enter_context cm stack =
     (case scope_enter cm of
        Some e \<Rightarrow> (Some e, stack, [])
      | None \<Rightarrow> (None, cm # stack, [Entered (scope_id cm)]))"

definition enter_async_context ::
  "scope \<Rightarrow> scope list \<Rightarrow> exn option \<times> scope list \<times> action list" where
  "enter_async_context cm stack =
     (case scope_enter cm of
        Some e \<Rightarrow> (Some e, stack, [])
      | None \<Rightarrow> (None, cm # stack, [Entered (scope_id cm)]))"

text \<open>
  The loop of \<^verbatim>\<open>AsyncExitStack.__aexit__\<close>: callbacks are popped one by one and
  called with the exception that is current; a truthy result clears it, a callback that
  raises replaces it and makes it pending.
\<close>

fun exit_callbacks ::
  "scope list \<Rightarrow> exn option \<Rightarrow> bool \<Rightarrow> bool \<Rightarrow> (exn option \<times> bool \<times> bool) \<times> action list" where
  "exit_callbacks [] exc suppressed_exc pending_raise =
     ((exc, suppressed_exc, pending_raise), [])"
| "exit_callbacks (cb # stack) exc suppressed_exc pending_raise =
     (case (case scope_exit cb exc of
              Inr cb_suppress \<Rightarrow>
                if cb_suppress then exit_callbacks stack None True False
                else exit_callbacks stack exc suppressed_exc pending_raise
            | Inl new_exc \<Rightarrow> exit_callbacks stack (Some new_exc) suppressed_exc True) of
        (r, t) \<Rightarrow> (r, Exited (scope_id cb) exc # t))"

text \<open>
  \<^verbatim>\<open>__aexit__\<close> raises the pending exception (\<open>Inl\<close>), or returns whether the
  exception it received has been suppressed. An exception is pending only after a
  callback has raised one, so \<^verbatim>\<open>raise exc\<close> always has an exception to raise; the
  other branch is Python's \<^verbatim>\<open>TypeError\<close> for \<^verbatim>\<open>raise None\<close>.
\<close>

definition aexit :: "scope list \<Rightarrow> exn option \<Rightarrow> (exn + bool) \<times> action list" where
  "aexit stack exc_details =
     (case exit_callbacks stack exc_details False False of
        ((exc, suppressed_exc, pending_raise), t) \<Rightarrow>
          if pending_raise
          then (Inl (case exc of Some e \<Rightarrow> e | None \<Rightarrow> TypeError), t)
          else (Inr (exc_details \<noteq> None \<and> suppressed_exc), t))"

text \<open>
  Lines 80-88: the classification of \<^verbatim>\<open>ret_val\<close>. The result is an exception, or
  the value of \<^verbatim>\<open>call_next_handlers\<close>.
\<close>

fun interpret_ret_val ::
  "pyval \<Rightarrow> scope list \<Rightarrow> (exn + pyval) \<times> scope list \<times> action list" where
  "interpret_ret_val (PCoroutine res) middlewares_stack =
     (case res of
        Inl e \<Rightarrow> (Inl e, middlewares_stack, [])
      | Inr v \<Rightarrow> (Inr v, middlewares_stack, []))"
| "interpret_ret_val (PAsyncCM cm) middlewares_stack =
     (case enter_async_context cm middlewares_stack of
        (Some e, stack, t) \<Rightarrow> (Inl e, stack, t)
      | (None, stack, t) \<Rightarrow> (Inr (PBool True), stack, t))"
| "interpret_ret_val (PSyncCM cm) middlewares_stack =
     (case enter_context cm middlewares_stack of
        (Some e, stack, t) \<Rightarrow> (Inl e, stack, t)
      | (None, stack, t) \<Rightarrow> (Inr (PBool True), stack, t))"
| "interpret_ret_val ret_val middlewares_stack = (Inr ret_val, middlewares_stack, [])"

text \<open>
  One iteration of the loop, lines 73-90, and how it leaves: on to the next declaration
  (\<^verbatim>\<open>continue\<close>, or the end of the body), \<^verbatim>\<open>break\<close>, or an exception.
\<close>

datatype flow = Next | Break | Raise exn

definition loop_body ::
  "'ev \<Rightarrow> 'ev predicate list list option \<times> 'ev handler_method \<Rightarrow> scope list
     \<Rightarrow> flow \<times> scope list \<times> action list" where
  "loop_body event decl middlewares_stack =
     (case decl of (or_predicates, handler_method) \<Rightarrow>
        (case skip_handler event or_predicates of
           (Inl e, t) \<Rightarrow> (Raise e, middlewares_stack, t)
         | (Inr skip, t) \<Rightarrow>
             if skip then (Next, middlewares_stack, t)
             else
               (case hm_call handler_method event of
                  Inl e \<Rightarrow> (Raise e, middlewares_stack, t @ [Invoked (hm_name handler_method)])
                | Inr ret_val \<Rightarrow>
                    (case interpret_ret_val ret_val middlewares_stack of
                       (Inl e, stack, t') \<Rightarrow>
                         (Raise e, stack, t @ Invoked (hm_name handler_method) # t')
                     | (Inr call_next_handlers, stack, t') \<Rightarrow>
                         (if truthy call_next_handlers then Next else Break,
                          stack, t @ Invoked (hm_name handler_method) # t')))))"

fun for_handlers ::
  "'ev \<Rightarrow> 'ev registry \<Rightarrow> scope list \<Rightarrow> flow \<times> scope list \<times> action list" where
  "for_handlers event [] middlewares_stack = (Next, middlewares_stack, [])"
| "for_handlers event (decl # handlers) middlewares_stack =
     (case loop_body event decl middlewares_stack of
        (Next, stack, t) \<Rightarrow>
          (case for_handlers event handlers stack of (fl, stack', t') \<Rightarrow> (fl, stack', t @ t'))
      | (fl, stack, t) \<Rightarrow> (fl, stack, t))"

text \<open>
  \<^verbatim>\<open>process_event\<close>: the \<^verbatim>\<open>async with\<close> statement runs the loop on an empty
  stack, then \<^verbatim>\<open>__aexit__\<close> with the exception that left the loop, if any. The
  result is the exception the caller observes (\<open>None\<close>: the call returns), and the
  trace of the whole call.
\<close>

definition process_event :: "'ev registry \<Rightarrow> 'ev \<Rightarrow> exn option \<times> action list" where
  "process_event handlers event =
     (case for_handlers event handlers [] of
        (fl, stack, t) \<Rightarrow>
          (let body_exc = (case fl of Raise e \<Rightarrow> Some e | _ \<Rightarrow> None) in
           case aexit stack body_exc of
             (Inl e, t') \<Rightarrow> (Some e, t @ t')
           | (Inr suppress, t') \<Rightarrow> (if suppress then None else body_exc, t @ t')))"

subsection \<open>What the specification says of a predicate group\<close>

text \<open>
  These definitions follow the words of the specification, not the code: an AND-clause
  matches iff all its predicates return true, a Predicate Group Set matches iff at least
  one AND-clause matches, its absence always matches. The predicates called are those of
  an AND-clause up to and including the first that is not true, for the AND-clauses up to
  and including the first that matches.
\<close>

definition spec_pred_true :: "'ev \<Rightarrow> 'ev predicate \<Rightarrow> bool" where
  "spec_pred_true event p = (pred_call p event = Inr True)"



definition spec_and_calls :: "'ev \<Rightarrow> 'ev predicate list \<Rightarrow> action list" where
  "spec_and_calls event g =
     map (\<lambda>p. PredCalled (pred_id p))
       (take (Suc (length (takeWhile (spec_pred_true event) g))) g)"





subsection \<open>What the specification says of a handler's result\<close>


definition spec_scope :: "pyval \<Rightarrow> scope option" where
  "spec_scope ret_val =
     (case ret_val of PAsyncCM cm \<Rightarrow> Some cm | PSyncCM cm \<Rightarrow> Some cm | _ \<Rightarrow> None)"


definition completes :: "pyval \<Rightarrow> bool" where
  "completes ret_val =
     (case ret_val of
        PCoroutine r \<Rightarrow> (case r of Inl e \<Rightarrow> False | Inr v \<Rightarrow> True)
      | PAsyncCM cm \<Rightarrow> scope_enter cm = None
      | PSyncCM cm \<Rightarrow> scope_enter cm = None
      | v \<Rightarrow> True)"

subsection \<open>Reading a trace\<close>

definition entered :: "action list \<Rightarrow> nat list" where
  "entered t = concat (map (\<lambda>a. case a of Entered i \<Rightarrow> [i] | _ \<Rightarrow> []) t)"

definition exited :: "action list \<Rightarrow> nat list" where
  "exited t = concat (map (\<lambda>a. case a of Exited i exc \<Rightarrow> [i] | _ \<Rightarrow> []) t)"

definition invoked :: "action list \<Rightarrow> string list" where
  "invoked t = concat (map (\<lambda>a. case a of Invoked n \<Rightarrow> [n] | _ \<Rightarrow> []) t)"

subsection \<open>What the specification says of the unwinding\<close>

definition is_exit :: "action \<Rightarrow> bool" where
  "is_exit a = (case a of Exited i exc \<Rightarrow> True | _ \<Rightarrow> False)"




subsection \<open>What the specification says of the registry\<close>






subsection \<open>Callbacks of the unit tests\<close>

text \<open>
  The mocks of \<^verbatim>\<open>tests/unit/test_aioevproc.py\<close>, on the event \<^verbatim>\<open>{}\<close>:
  predicates with a fixed return value, handlers that return a value or raise, and the
  generator-based middleware that catches one exception type around its
  \<^verbatim>\<open>yield\<close>.
\<close>

definition predicate_mock :: "nat \<Rightarrow> bool \<Rightarrow> unit predicate" where
  "predicate_mock i return_value = \<lparr>pred_id = i, pred_call = (\<lambda>event. Inr return_value)\<rparr>"

definition handler_returns :: "string \<Rightarrow> pyval \<Rightarrow> unit handler_method" where
  "handler_returns n v = \<lparr>hm_name = n, hm_call = (\<lambda>event. Inr v), hm_attr = None\<rparr>"

definition handler_raises :: "string \<Rightarrow> exn \<Rightarrow> unit handler_method" where
  "handler_raises n e = \<lparr>hm_name = n, hm_call = (\<lambda>event. Inl e), hm_attr = None\<rparr>"

definition middleware :: "nat \<Rightarrow> scope" where
  "middleware i = \<lparr>scope_id = i, scope_enter = None, scope_exit = (\<lambda>exc. Inr False)\<rparr>"


section \<open>Predicate groups\<close>

lemma all_preds_trace: "snd (all_preds event g) = spec_and_calls event g"
  by (induction g)
    (auto simp: spec_and_calls_def spec_pred_true_def split: sum.splits prod.splits)




lemma invoked_append: "invoked (t @ t') = invoked t @ invoked t'"
  by (simp add: invoked_def)

lemma invoked_and_calls: "invoked (spec_and_calls event g) = []"
  by (simp add: invoked_def spec_and_calls_def comp_def)


lemma interpret_trace_invoked: "invoked (snd (snd (interpret_ret_val v st))) = []"
  by (cases "(v, st)" rule: interpret_ret_val.cases)
     (auto simp: invoked_def enter_context_def enter_async_context_def split: sum.splits option.splits)

lemma invoked_Invoked: "invoked (Invoked n # t) = n # invoked t"
  by (simp add: invoked_def)




section \<open>The handler protocol\<close>


lemma loop_body_matched:
  assumes "fst (skip_handler event grp) = Inr False" and "hm_call h event = Inr ret_val"
  shows "loop_body event (grp, h) st =
     (case interpret_ret_val ret_val st of
        (Inl e, stack, t') \<Rightarrow>
          (Raise e, stack, snd (skip_handler event grp) @ Invoked (hm_name h) # t')
      | (Inr c, stack, t') \<Rightarrow>
          (if truthy c then Next else Break, stack,
           snd (skip_handler event grp) @ Invoked (hm_name h) # t'))"
  using assms
  by (cases "skip_handler event grp")
    (auto simp: loop_body_def split: prod.splits sum.splits)


text \<open>
  When obtaining the result raises instead (the awaited coroutine raises, or the entry of
  the scope raises), the iteration leaves the loop with that exception: there is no
  continuation decision.
\<close>

lemma loop_body_not_completes:
  assumes "fst (skip_handler event grp) = Inr False" and "hm_call h event = Inr ret_val"
    and "\<not> completes ret_val"
  shows "\<exists>e. fst (loop_body event (grp, h) st) = Raise e"
  using assms(3)
  by (cases ret_val)
    (auto simp: loop_body_matched [OF assms(1,2)] completes_def enter_context_def
       enter_async_context_def split: sum.splits)

lemma for_handlers_append:
  "for_handlers event (xs @ ys) st =
     (case for_handlers event xs st of
        (Next, st', t) \<Rightarrow>
          (case for_handlers event ys st' of (fl, st'', t') \<Rightarrow> (fl, st'', t @ t'))
      | (fl, st', t) \<Rightarrow> (fl, st', t))"
proof (induction xs arbitrary: st)
  case Nil
  then show ?case by (simp split: prod.splits)
next
  case (Cons d xs)
  obtain fl st1 t1 where b: "loop_body event d st = (fl, st1, t1)"
    by (cases "loop_body event d st")
  show ?case
  proof (cases fl)
    case Next
    with b Cons [of st1] show ?thesis
      by (simp split: prod.splits flow.splits)
  qed (simp_all add: b)
qed





lemma entered_append: "entered (t @ t') = entered t @ entered t'"
  by (simp add: entered_def)

lemma exited_append: "exited (t @ t') = exited t @ exited t'"
  by (simp add: exited_def)

lemma pred_calls_read:
  assumes "set t \<subseteq> range PredCalled"
  shows "entered t = []" "exited t = []" "invoked t = []"
  using assms by (induction t) (auto simp: entered_def exited_def invoked_def)

lemma all_preds_calls: "set (snd (all_preds event g)) \<subseteq> range PredCalled"
  unfolding all_preds_trace spec_and_calls_def by auto

lemma any_all_calls: "set (snd (any_all event ors)) \<subseteq> range PredCalled"
proof (induction ors)
  case Nil
  then show ?case by simp
next
  case (Cons g ors)
  obtain r t where a: "all_preds event g = (r, t)" by (cases "all_preds event g")
  obtain r' t' where b: "any_all event ors = (r', t')" by (cases "any_all event ors")
  have t: "set t \<subseteq> range PredCalled"
    using all_preds_calls [of event g] a by simp
  have t': "set t' \<subseteq> range PredCalled"
    using Cons b by simp
  show ?case
  proof (cases r)
    case (Inl e)
    with a t show ?thesis by simp
  next
    case (Inr m)
    with a b t t' show ?thesis by (cases m) simp_all
  qed
qed

lemma skip_handler_calls: "set (snd (skip_handler event grp)) \<subseteq> range PredCalled"
proof (cases grp)
  case None
  then show ?thesis by (simp add: skip_handler_def)
next
  case (Some ors)
  obtain r t where a: "any_all event ors = (r, t)" by (cases "any_all event ors")
  have "set t \<subseteq> range PredCalled"
    using any_all_calls [of event ors] a by simp
  with Some a show ?thesis
    by (cases r) (simp_all add: skip_handler_def)
qed

lemma skip_handler_read:
  "entered (snd (skip_handler event grp)) = []" "exited (snd (skip_handler event grp)) = []"
  "invoked (snd (skip_handler event grp)) = []"
  using pred_calls_read [OF skip_handler_calls [of event grp]] by simp_all

lemma interpret_ret_val_cases:
  assumes "interpret_ret_val v st = (r, stack, t)"
  shows "(stack = st \<and> t = [])
       \<or> (\<exists>cm. (v = PAsyncCM cm \<or> v = PSyncCM cm) \<and> scope_enter cm = None
             \<and> stack = cm # st \<and> t = [Entered (scope_id cm)] \<and> r = Inr (PBool True))"
  using assms
  by (cases v)
    (auto simp: enter_context_def enter_async_context_def split: sum.splits option.splits)

lemma loop_body_cases:
  assumes "loop_body event (grp, h) st = (fl, stack, t)"
  shows "exited t = [] \<and>
       ((stack = st \<and> entered t = [])
        \<or> (\<exists>cm. (hm_call h event = Inr (PAsyncCM cm) \<or> hm_call h event = Inr (PSyncCM cm))
              \<and> scope_enter cm = None \<and> stack = cm # st \<and> entered t = [scope_id cm]
              \<and> fl = Next))"
proof -
  obtain r t0 where s: "skip_handler event grp = (r, t0)"
    by (cases "skip_handler event grp")
  have t0: "entered t0 = []" "exited t0 = []"
    using skip_handler_read [of event grp] s by simp_all
  show ?thesis
  proof (cases r)
    case (Inl e)
    with s assms t0 show ?thesis by (auto simp: loop_body_def)
  next
    case (Inr skip)
    show ?thesis
    proof (cases skip)
      case True
      with Inr s assms t0 show ?thesis by (auto simp: loop_body_def)
    next
      case False
      show ?thesis
      proof (cases "hm_call h event")
        case (Inl e)
        with False Inr s assms t0 show ?thesis
          by (auto simp: loop_body_def entered_append exited_append)
            (simp_all add: entered_def exited_def)
      next
        case ret: (Inr ret_val)
        obtain r' stack' t' where i: "interpret_ret_val ret_val st = (r', stack', t')"
          by (cases "interpret_ret_val ret_val st")
        have st: "stack = stack'" and t: "t = t0 @ Invoked (hm_name h) # t'"
          using False Inr s assms ret i by (cases r'; simp add: loop_body_def)+
        have fl: "fl = Next" if "r' = Inr (PBool True)"
          using that False Inr s assms ret i by (simp add: loop_body_def)
        from interpret_ret_val_cases [OF i] show ?thesis
        proof
          assume "stack' = st \<and> t' = []"
          then show ?thesis
            using st t t0 by (simp add: entered_append exited_append)
              (simp add: entered_def exited_def)
        next
          assume "\<exists>cm. (ret_val = PAsyncCM cm \<or> ret_val = PSyncCM cm) \<and> scope_enter cm = None
             \<and> stack' = cm # st \<and> t' = [Entered (scope_id cm)] \<and> r' = Inr (PBool True)"
          then obtain cm where cm: "ret_val = PAsyncCM cm \<or> ret_val = PSyncCM cm"
            "scope_enter cm = None" "stack' = cm # st" "t' = [Entered (scope_id cm)]"
            "r' = Inr (PBool True)" by blast
          have "exited t = []" "entered t = [scope_id cm]"
            using t t0 cm(4) by (simp_all add: entered_append exited_append)
              (simp_all add: entered_def exited_def)
          then show ?thesis
            using cm ret st fl by blast
        qed
      qed
    qed
  qed
qed

text \<open>
  Claim C9. When the handler returns a coroutine, the value it resolves to only decides
  between continuing and stopping: nothing is entered and the middleware stack is
  unchanged, also when that value is itself a context manager (the dispatch then
  continues, the value being truthy). An iteration changes the stack only when the
  handler's own return value is a context manager.
\<close>

theorem C9_awaited_value_is_only_a_flag:
  assumes "fst (skip_handler event grp) = Inr False"
    and "hm_call h event = Inr (PCoroutine (Inr v))"
  shows "loop_body event (grp, h) st =
           (if truthy v then Next else Break, st,
            snd (skip_handler event grp) @ [Invoked (hm_name h)])
       \<and> (spec_scope v \<noteq> None \<longrightarrow>
            loop_body event (grp, h) st =
              (Next, st, snd (skip_handler event grp) @ [Invoked (hm_name h)]))
       \<and> entered (snd (snd (loop_body event (grp, h) st))) = []
       \<and> (\<forall>grp' h'. fst (snd (loop_body event (grp', h') st)) \<noteq> st \<longrightarrow>
            (\<exists>cm. hm_call h' event = Inr (PAsyncCM cm) \<or> hm_call h' event = Inr (PSyncCM cm)))"
proof -
  have b: "loop_body event (grp, h) st =
           (if truthy v then Next else Break, st,
            snd (skip_handler event grp) @ [Invoked (hm_name h)])"
    by (simp add: loop_body_matched [OF assms])
  have c: "truthy v" if "spec_scope v \<noteq> None"
    using that by (cases v) (simp_all add: spec_scope_def)
  have e: "entered (snd (skip_handler event grp) @ [Invoked (hm_name h)]) = []"
    by (simp add: entered_append skip_handler_read) (simp add: entered_def)
  have d: "\<exists>cm. hm_call h' event = Inr (PAsyncCM cm) \<or> hm_call h' event = Inr (PSyncCM cm)"
    if "fst (snd (loop_body event (grp', h') st)) \<noteq> st" for grp' h'
  proof -
    obtain fl stack t where l: "loop_body event (grp', h') st = (fl, stack, t)"
      by (cases "loop_body event (grp', h') st")
    with that have "stack \<noteq> st" by simp
    with loop_body_cases [OF l] show ?thesis by blast
  qed
  show ?thesis
    using b c d e by simp
qed

theorem C9_awaited_value_is_only_a_flag_witness:
  "fst (skip_handler () None) = Inr False
   \<and> spec_scope (PSyncCM (middleware 1)) \<noteq> None
   \<and> loop_body () (None, handler_returns ''h'' (PCoroutine (Inr (PSyncCM (middleware 1))))) []
       = (Next, [], [Invoked ''h''])
   \<and> fst (snd (loop_body () (None, handler_returns ''mw'' (PSyncCM (middleware 1))) [])) \<noteq> []"
proof -
  have h1: "fst (skip_handler () None) = Inr False"
    by (simp add: skip_handler_def)
  have h2: "hm_call (handler_returns ''h'' (PCoroutine (Inr (PSyncCM (middleware 1))))) ()
              = Inr (PCoroutine (Inr (PSyncCM (middleware 1))))"
    by (simp add: handler_returns_def)
  have h3: "fst (snd (loop_body () (None, handler_returns ''mw'' (PSyncCM (middleware 1))) []))
              \<noteq> []"
    by (simp add: loop_body_def skip_handler_def handler_returns_def enter_context_def
          middleware_def)
  show ?thesis
    using C9_awaited_value_is_only_a_flag [OF h1 h2, of "[]"] h1 h3
    by (simp add: spec_scope_def skip_handler_def handler_returns_def)
qed

text \<open>
  Claim C10. For a handler result that is not a middleware scope, returned directly or
  resolved from a coroutine, the dispatch stops iff the value is falsy under Python's
  truth value testing, and otherwise goes on to the remaining declarations: \<open>0\<close>, the
  empty string and the empty list stop it like \<open>None\<close> and \<open>False\<close>; \<open>1\<close>,
  \<open>'abc'\<close> and a non-empty list continue.
\<close>

theorem C10_general_truthiness:
  assumes "fst (skip_handler event grp) = Inr False"
    and "hm_call h event = Inr ret_val"
    and "ret_val = PCoroutine (Inr v)
         \<or> (ret_val = v \<and> spec_scope v = None \<and> (\<forall>r. v \<noteq> PCoroutine r))"
  shows "fst (loop_body event (grp, h) st) = (if truthy v then Next else Break)
       \<and> (\<not> truthy v \<longrightarrow>
            for_handlers event ((grp, h) # rest) st = loop_body event (grp, h) st)
       \<and> (truthy v \<longrightarrow>
            for_handlers event ((grp, h) # rest) st =
              (case for_handlers event rest st of
                 (fl, stack, t') \<Rightarrow>
                   (fl, stack, (snd (skip_handler event grp) @ [Invoked (hm_name h)]) @ t')))
       \<and> \<not> truthy (PInt 0) \<and> \<not> truthy (PStr []) \<and> \<not> truthy (PList [])
       \<and> \<not> truthy PNone \<and> \<not> truthy (PBool False)
       \<and> truthy (PInt 1) \<and> truthy (PStr ''abc'') \<and> truthy (PList [PNone])"
proof -
  have b: "loop_body event (grp, h) st =
           (if truthy v then Next else Break, st,
            snd (skip_handler event grp) @ [Invoked (hm_name h)])"
    using assms(3)
  proof
    assume "ret_val = PCoroutine (Inr v)"
    then show ?thesis by (simp add: loop_body_matched [OF assms(1,2)])
  next
    assume "ret_val = v \<and> spec_scope v = None \<and> (\<forall>r. v \<noteq> PCoroutine r)"
    then show ?thesis
      by (cases v) (simp_all add: loop_body_matched [OF assms(1,2)] spec_scope_def)
  qed
  show ?thesis
    by (simp add: b)
qed

theorem C10_general_truthiness_witness:
  "fst (skip_handler () None) = Inr False
   \<and> spec_scope (PInt 0) = None
   \<and> for_handlers () [(None, handler_returns ''h'' (PInt 0)),
                       (None, handler_returns ''second'' PNone)] []
       = (Break, [], [Invoked ''h''])
   \<and> for_handlers () [(None, handler_returns ''h'' (PCoroutine (Inr (PStr ''abc'')))),
                       (None, handler_returns ''second'' PNone)] []
       = (Break, [], [Invoked ''h'', Invoked ''second''])"
proof -
  have h1: "fst (skip_handler () None) = Inr False"
    by (simp add: skip_handler_def)
  have h2: "hm_call (handler_returns ''h'' (PInt 0)) () = Inr (PInt 0)"
    by (simp add: handler_returns_def)
  have h3: "PInt 0 = PCoroutine (Inr (PInt 0))
         \<or> (PInt 0 = PInt 0 \<and> spec_scope (PInt 0) = None \<and> (\<forall>r. PInt 0 \<noteq> PCoroutine r))"
    by (simp add: spec_scope_def)
  have h4: "hm_call (handler_returns ''h'' (PCoroutine (Inr (PStr ''abc'')))) ()
              = Inr (PCoroutine (Inr (PStr ''abc'')))"
    by (simp add: handler_returns_def)
  have h5: "PCoroutine (Inr (PStr ''abc'')) = PCoroutine (Inr (PStr ''abc''))
         \<or> (PCoroutine (Inr (PStr ''abc'')) = PStr ''abc'' \<and> spec_scope (PStr ''abc'') = None
             \<and> (\<forall>r. PStr ''abc'' \<noteq> PCoroutine r))"
    by simp
  show ?thesis
    using C10_general_truthiness [OF h1 h2 h3, of "[]" "[(None, handler_returns ''second'' PNone)]"]
      C10_general_truthiness [OF h1 h4 h5, of "[]" "[(None, handler_returns ''second'' PNone)]"]
      h1 h3
    by (simp add: loop_body_def skip_handler_def handler_returns_def spec_scope_def)
qed

section \<open>The middleware stack\<close>

lemma for_handlers_stack:
  "for_handlers event hs st = (fl, stack, t)
   \<Longrightarrow> exited t = [] \<and> map scope_id stack = rev (entered t) @ map scope_id st"
proof (induction hs arbitrary: st fl stack t)
  case Nil
  then show ?case by (simp add: exited_def entered_def)
next
  case (Cons d hs)
  obtain grp h where d: "d = (grp, h)" by (cases d)
  obtain fl1 st1 t1 where b: "loop_body event (grp, h) st = (fl1, st1, t1)"
    by (cases "loop_body event (grp, h) st")
  from loop_body_cases [OF b]
  have 1: "exited t1 = []" "map scope_id st1 = rev (entered t1) @ map scope_id st"
    by auto
  show ?case
  proof (cases fl1)
    case Next
    obtain fl2 st2 t2 where r: "for_handlers event hs st1 = (fl2, st2, t2)"
      by (cases "for_handlers event hs st1")
    from Cons.IH [OF r]
    have 2: "exited t2 = []" "map scope_id st2 = rev (entered t2) @ map scope_id st1"
      by auto
    from Cons.prems d b Next r have "stack = st2" "t = t1 @ t2" by simp_all
    with 1 2 show ?thesis by (simp add: exited_append entered_append)
  next
    case Break
    with Cons.prems d b have "stack = st1" "t = t1" by simp_all
    with 1 show ?thesis by simp
  next
    case (Raise e)
    with Cons.prems d b have "stack = st1" "t = t1" by simp_all
    with 1 show ?thesis by simp
  qed
qed

lemma Exited_read:
  "is_exit (Exited i exc)" "exited (Exited i exc # t) = i # exited t"
  by (simp_all add: is_exit_def exited_def)

lemma exit_callbacks_trace:
  "exit_callbacks stack exc s p = (r, t)
   \<Longrightarrow> list_all is_exit t \<and> exited t = map scope_id stack"
proof (induction stack arbitrary: exc s p r t)
  case Nil
  then show ?case by (simp add: exited_def)
next
  case (Cons cb stack)
  define rest where "rest =
     (case scope_exit cb exc of
        Inr cb_suppress \<Rightarrow>
          if cb_suppress then exit_callbacks stack None True False
          else exit_callbacks stack exc s p
      | Inl new_exc \<Rightarrow> exit_callbacks stack (Some new_exc) s True)"
  obtain r' t' where rt: "rest = (r', t')" by (cases rest)
  have "\<exists>exc' s' p'. rest = exit_callbacks stack exc' s' p'"
    unfolding rest_def by (cases "scope_exit cb exc") auto
  then obtain exc' s' p' where "exit_callbacks stack exc' s' p' = (r', t')"
    using rt by auto
  from Cons.IH [OF this] have IH: "list_all is_exit t'" "exited t' = map scope_id stack"
    by simp_all
  from Cons.prems rt have "t = Exited (scope_id cb) exc # t'"
    by (simp add: rest_def [symmetric])
  with IH show ?case
    by (simp add: Exited_read)
qed

lemma aexit_trace:
  "list_all is_exit (snd (aexit stack exc)) \<and> exited (snd (aexit stack exc)) = map scope_id stack"
proof -
  obtain x s p t where e: "exit_callbacks stack exc False False = ((x, s, p), t)"
    by (cases "exit_callbacks stack exc False False") auto
  then have "snd (aexit stack exc) = t"
    by (simp add: aexit_def)
  with exit_callbacks_trace [OF e] show ?thesis by simp
qed

lemma exits_read:
  assumes "list_all is_exit t"
  shows "entered t = []" "invoked t = []"
  using assms
  by (induction t) (auto simp: entered_def invoked_def is_exit_def split: action.splits)

lemma process_event_trace:
  assumes "for_handlers event handlers [] = (fl, stack, t)"
  shows "snd (process_event handlers event)
           = t @ snd (aexit stack (case fl of Raise e \<Rightarrow> Some e | _ \<Rightarrow> None))"
  using assms by (simp add: process_event_def Let_def split: prod.splits sum.splits)

text \<open>
  Claim C3. Whatever way the loop of a dispatch ends (\<open>fl\<close> is \<open>Next\<close> for
  normal completion, \<open>Break\<close> for the early stop, \<open>Raise e\<close> for an exception
  from a predicate, a handler or a middleware entry): the trace of the call is the trace
  \<open>t\<close> of the loop, in which no scope is exited, followed by exit actions only; the
  scopes on the stack are those entered, and the exits are those scopes in reverse order
  of entry, each once. So in the whole call the exits are the entries reversed.
\<close>

theorem C3_scopes_exited_in_reverse:
  assumes "for_handlers event handlers [] = (fl, stack, t)"
  shows "take (length t) (snd (process_event handlers event)) = t
       \<and> exited t = []
       \<and> map scope_id stack = rev (entered t)
       \<and> list_all is_exit (drop (length t) (snd (process_event handlers event)))
       \<and> exited (drop (length t) (snd (process_event handlers event))) = rev (entered t)
       \<and> exited (snd (process_event handlers event))
           = rev (entered (snd (process_event handlers event)))"
proof -
  let ?x = "snd (aexit stack (case fl of Raise e \<Rightarrow> Some e | _ \<Rightarrow> None))"
  have tr: "snd (process_event handlers event) = t @ ?x"
    by (rule process_event_trace [OF assms])
  have st: "exited t = []" "map scope_id stack = rev (entered t)"
    using for_handlers_stack [OF assms] by simp_all
  have x: "list_all is_exit ?x" "exited ?x = map scope_id stack"
    using aexit_trace by blast+
  have "entered ?x = []"
    using exits_read(1) [OF x(1)] .
  then show ?thesis
    using st x by (simp add: tr exited_append entered_append)
qed


theorem C3_scopes_exited_in_reverse_witness:
  "for_handlers ()
     [(None, handler_returns ''a'' (PAsyncCM (middleware 1))),
      (None, handler_returns ''b'' (PSyncCM (middleware 2))),
      (None, handler_raises ''h'' RuntimeError)] []
     = (Raise RuntimeError, [middleware 2, middleware 1],
        [Invoked ''a'', Entered 1, Invoked ''b'', Entered 2, Invoked ''h''])
   \<and> exited (drop 5 (snd (process_event
        [(None, handler_returns ''a'' (PAsyncCM (middleware 1))),
         (None, handler_returns ''b'' (PSyncCM (middleware 2))),
         (None, handler_raises ''h'' RuntimeError)] ()))) = [2, 1]
   \<and> for_handlers ()
     [(None, handler_returns ''a'' (PAsyncCM (middleware 1))),
      (None, handler_returns ''h'' PNone),
      (None, handler_returns ''b'' (PSyncCM (middleware 2)))] []
     = (Break, [middleware 1], [Invoked ''a'', Entered 1, Invoked ''h''])
   \<and> exited (drop 3 (snd (process_event
        [(None, handler_returns ''a'' (PAsyncCM (middleware 1))),
         (None, handler_returns ''h'' PNone),
         (None, handler_returns ''b'' (PSyncCM (middleware 2)))] ()))) = [1]"
proof -
  have h1: "for_handlers ()
     [(None, handler_returns ''a'' (PAsyncCM (middleware 1))),
      (None, handler_returns ''b'' (PSyncCM (middleware 2))),
      (None, handler_raises ''h'' RuntimeError)] []
     = (Raise RuntimeError, [middleware 2, middleware 1],
        [Invoked ''a'', Entered 1, Invoked ''b'', Entered 2, Invoked ''h''])"
    by (simp add: loop_body_def skip_handler_def handler_returns_def handler_raises_def
          enter_context_def enter_async_context_def middleware_def)
  have h2: "for_handlers ()
     [(None, handler_returns ''a'' (PAsyncCM (middleware 1))),
      (None, handler_returns ''h'' PNone),
      (None, handler_returns ''b'' (PSyncCM (middleware 2)))] []
     = (Break, [middleware 1], [Invoked ''a'', Entered 1, Invoked ''h''])"
    by (simp add: loop_body_def skip_handler_def handler_returns_def
          enter_context_def enter_async_context_def middleware_def)
  have l: "length [Invoked ''a'', Entered 1, Invoked ''b'', Entered 2, Invoked ''h''] = 5"
    "length [Invoked ''a'', Entered 1, Invoked ''h''] = 3"
    by simp_all
  have e: "rev (entered [Invoked ''a'', Entered 1, Invoked ''b'', Entered 2, Invoked ''h''])
             = [2, 1]"
    "rev (entered [Invoked ''a'', Entered 1, Invoked ''h'']) = [1]"
    by (simp_all add: entered_def)
  from C3_scopes_exited_in_reverse [OF h1]
  have "exited (drop (length [Invoked ''a'', Entered 1, Invoked ''b'', Entered 2, Invoked ''h''])
          (snd (process_event
            [(None, handler_returns ''a'' (PAsyncCM (middleware 1))),
             (None, handler_returns ''b'' (PSyncCM (middleware 2))),
             (None, handler_raises ''h'' RuntimeError)] ())))
        = rev (entered [Invoked ''a'', Entered 1, Invoked ''b'', Entered 2, Invoked ''h''])"
    by blast
  then have c1: "exited (drop 5 (snd (process_event
            [(None, handler_returns ''a'' (PAsyncCM (middleware 1))),
             (None, handler_returns ''b'' (PSyncCM (middleware 2))),
             (None, handler_raises ''h'' RuntimeError)] ()))) = [2, 1]"
    unfolding l e .
  from C3_scopes_exited_in_reverse [OF h2]
  have "exited (drop (length [Invoked ''a'', Entered 1, Invoked ''h''])
          (snd (process_event
            [(None, handler_returns ''a'' (PAsyncCM (middleware 1))),
             (None, handler_returns ''h'' PNone),
             (None, handler_returns ''b'' (PSyncCM (middleware 2)))] ())))
        = rev (entered [Invoked ''a'', Entered 1, Invoked ''h''])"
    by blast
  then have c2: "exited (drop 3 (snd (process_event
            [(None, handler_returns ''a'' (PAsyncCM (middleware 1))),
             (None, handler_returns ''h'' PNone),
             (None, handler_returns ''b'' (PSyncCM (middleware 2)))] ()))) = [1]"
    unfolding l e .
  from h1 c1 h2 c2 show ?thesis by blast
qed

section \<open>Errors of handlers\<close>









section \<open>Unconditional handlers\<close>

lemma loop_body_invoked_any:
  "invoked (snd (snd (loop_body event (grp, h) st)))
     = (if fst (skip_handler event grp) = Inr False then [hm_name h] else [])"
proof -
  obtain r t0 where s: "skip_handler event grp = (r, t0)"
    by (cases "skip_handler event grp")
  have t0: "invoked t0 = []"
    using skip_handler_read(3) [of event grp] s by simp
  show ?thesis
  proof (cases r)
    case (Inl e)
    with s t0 show ?thesis by (simp add: loop_body_def)
  next
    case (Inr skip)
    show ?thesis
    proof (cases skip)
      case True
      with Inr s t0 show ?thesis by (simp add: loop_body_def)
    next
      case False
      show ?thesis
      proof (cases "hm_call h event")
        case (Inl e)
        with False Inr s t0 show ?thesis
          by (simp add: loop_body_def invoked_append invoked_Invoked) (simp add: invoked_def)
      next
        case ret: (Inr ret_val)
        obtain r' stack' t' where i: "interpret_ret_val ret_val st = (r', stack', t')"
          by (cases "interpret_ret_val ret_val st")
        then have "invoked t' = []"
          using interpret_trace_invoked [of ret_val st] by simp
        with False Inr s t0 ret i show ?thesis
          by (cases r') (simp_all add: loop_body_def invoked_append invoked_Invoked)
      qed
    qed
  qed
qed

lemma for_handlers_invoked_subseq:
  "subseq (invoked (snd (snd (for_handlers event hs st)))) (map (\<lambda>d. hm_name (snd d)) hs)"
proof (induction hs arbitrary: st)
  case Nil
  then show ?case by (simp add: invoked_def)
next
  case (Cons d hs)
  obtain grp h where d: "d = (grp, h)" by (cases d)
  obtain fl1 st1 t1 where b: "loop_body event (grp, h) st = (fl1, st1, t1)"
    by (cases "loop_body event (grp, h) st")
  have t1: "invoked t1 = [] \<or> invoked t1 = [hm_name h]"
    using loop_body_invoked_any [of event grp h st] b by (simp split: if_splits)
  obtain fl2 st2 t2 where r: "for_handlers event hs st1 = (fl2, st2, t2)"
    by (cases "for_handlers event hs st1")
  have t2: "subseq (invoked t2) (map (\<lambda>d. hm_name (snd d)) hs)"
    using Cons [of st1] r by simp
  have "snd (snd (for_handlers event (d # hs) st)) = t1
      \<or> snd (snd (for_handlers event (d # hs) st)) = t1 @ t2"
    using d b r by (cases fl1) simp_all
  then show ?case
  proof
    assume "snd (snd (for_handlers event (d # hs) st)) = t1"
    with t1 d show ?thesis by auto
  next
    assume "snd (snd (for_handlers event (d # hs) st)) = t1 @ t2"
    with t1 t2 d show ?thesis by (auto simp: invoked_append)
  qed
qed

lemma for_handlers_invoked_names:
  "set (invoked (snd (snd (for_handlers event hs st)))) \<subseteq> set (map (\<lambda>d. hm_name (snd d)) hs)"
proof
  fix x
  assume "x \<in> set (invoked (snd (snd (for_handlers event hs st))))"
  with for_handlers_invoked_subseq [of event hs st]
  obtain y where "y \<in> set (map (\<lambda>d. hm_name (snd d)) hs)" "x = y"
    by (rule list_emb_set)
  then show "x \<in> set (map (\<lambda>d. hm_name (snd d)) hs)" by simp
qed

lemma process_event_invoked:
  "invoked (snd (process_event hs event)) = invoked (snd (snd (for_handlers event hs [])))"
proof -
  obtain fl stack t where f: "for_handlers event hs [] = (fl, stack, t)"
    by (cases "for_handlers event hs []")
  have "invoked (snd (aexit stack (case fl of Raise e \<Rightarrow> Some e | _ \<Rightarrow> None))) = []"
    using aexit_trace exits_read(2) by blast
  then show ?thesis
    by (simp add: process_event_trace [OF f] f invoked_append)
qed

text \<open>
  Claim C5, as amended. An unconditional handler \<open>H\<close> that occurs once in the
  registry is invoked exactly once in a dispatch when every declaration before it lets
  the loop go on (\<open>for_handlers\<close> on the declarations before \<open>H\<close> ends with
  \<open>Next\<close>: none of them breaks or raises), and is not invoked at all otherwise.
\<close>

theorem C5_unconditional_handler:
  assumes "hm_name H \<notin> set (map (\<lambda>d. hm_name (snd d)) (pre @ post))"
  shows "count_list (invoked (snd (process_event (pre @ (None, H) # post) event))) (hm_name H)
           = (if fst (for_handlers event pre []) = Next then 1 else 0)"
proof -
  obtain fl st t where p: "for_handlers event pre [] = (fl, st, t)"
    by (cases "for_handlers event pre []")
  have t: "count_list (invoked t) (hm_name H) = 0"
    using for_handlers_invoked_names [of event pre "[]"] p assms
    by (auto simp: count_list_0_iff)
  show ?thesis
  proof (cases "fl = Next")
    case False
    then have "for_handlers event (pre @ (None, H) # post) [] = (fl, st, t)"
      using p by (cases fl) (simp_all add: for_handlers_append)
    with False p t show ?thesis
      by (simp add: process_event_invoked)
  next
    case True
    obtain fl1 st1 t1 where b: "loop_body event (None, H) st = (fl1, st1, t1)"
      by (cases "loop_body event (None, H) st")
    have t1: "invoked t1 = [hm_name H]"
      using loop_body_invoked_any [of event None H st] b by (simp add: skip_handler_def)
    obtain fl2 st2 t2 where r: "for_handlers event post st1 = (fl2, st2, t2)"
      by (cases "for_handlers event post st1")
    have t2: "count_list (invoked t2) (hm_name H) = 0"
      using for_handlers_invoked_names [of event post st1] r assms
      by (auto simp: count_list_0_iff)
    have "snd (snd (for_handlers event (pre @ (None, H) # post) [])) = t @ t1
        \<or> snd (snd (for_handlers event (pre @ (None, H) # post) [])) = t @ t1 @ t2"
      using p True b r by (cases fl1) (simp_all add: for_handlers_append)
    then have "count_list (invoked (snd (snd (for_handlers event (pre @ (None, H) # post) []))))
                 (hm_name H) = 1"
      using t t1 t2 by (auto simp: invoked_append)
    with True p show ?thesis
      by (simp add: process_event_invoked)
  qed
qed

theorem C5_unconditional_handler_witness:
  "''H'' \<notin> set (map (\<lambda>d. hm_name (snd d))
       ([(None, handler_returns ''first'' (PBool True))]
        @ [(None, handler_returns ''last'' PNone)]))
   \<and> fst (for_handlers () [(None, handler_returns ''first'' (PBool True))] []) = Next
   \<and> count_list (invoked (snd (process_event
        ([(None, handler_returns ''first'' (PBool True))]
         @ (None, handler_returns ''H'' PNone)
         # [(None, handler_returns ''last'' PNone)]) ()))) ''H'' = 1"
proof -
  have h1: "hm_name (handler_returns ''H'' PNone) \<notin> set (map (\<lambda>d. hm_name (snd d))
       ([(None, handler_returns ''first'' (PBool True))]
        @ [(None, handler_returns ''last'' PNone)]))"
    by (simp add: handler_returns_def)
  have h2: "fst (for_handlers () [(None, handler_returns ''first'' (PBool True))] []) = Next"
    by (simp add: loop_body_def skip_handler_def handler_returns_def)
  have n: "hm_name (handler_returns ''H'' PNone) = ''H''"
    by (simp add: handler_returns_def)
  from C5_unconditional_handler [OF h1, of "()"] h2
  have "count_list (invoked (snd (process_event
        ([(None, handler_returns ''first'' (PBool True))]
         @ (None, handler_returns ''H'' PNone)
         # [(None, handler_returns ''last'' PNone)]) ()))) (hm_name (handler_returns ''H'' PNone)) = 1"
    by simp
  with h1 h2 show ?thesis
    unfolding n by blast
qed

text \<open>
  Claim C5 as stated fails: after a first handler that returns \<^verbatim>\<open>None\<close> the
  dispatch stops, and the unconditional handler declared next is not invoked (the
  scenario of \<^verbatim>\<open>HandlerReturnsFalsyValueTestCase.test_none\<close>).
\<close>

theorem C5_counterexample:
  "count_list (invoked (snd (process_event
      [(None, handler_returns ''first'' PNone), (None, handler_returns ''H'' PNone)] ()))) ''H''
   = 0"
proof -
  have "process_event
      [(None, handler_returns ''first'' PNone), (None, handler_returns ''H'' PNone)] ()
      = (None, [Invoked ''first''])"
    by (simp add: process_event_def loop_body_def skip_handler_def handler_returns_def
          aexit_def)
  then show ?thesis
    by (simp add: invoked_def)
qed

section \<open>Declarations and the registry\<close>

lemma handler_unconditional:
  "handler [] f = (if hm_attr f = None then Inr (f\<lparr>hm_attr := Some None\<rparr>)
                   else Inl AssertionError)"
  by (simp add: handler_def)

lemma handler_conditional:
  "ps \<noteq> [] \<Longrightarrow>
   handler ps f =
     (case hm_attr f of
        None \<Rightarrow> Inr (f\<lparr>hm_attr := Some (Some [ps])\<rparr>)
      | Some None \<Rightarrow> Inl AssertionError
      | Some (Some acc) \<Rightarrow> Inr (f\<lparr>hm_attr := Some (Some (acc @ [ps]))\<rparr>))"
  by (simp add: handler_def split: option.splits)

lemma handler_error: "handler ps f = Inl e \<Longrightarrow> e = AssertionError"
  by (cases "ps = []")
    (auto simp: handler_unconditional handler_conditional split: if_splits option.splits)

lemma handler_attr: "handler ps f = Inr f' \<Longrightarrow> hm_attr f' \<noteq> None"
  by (cases "ps = []")
    (auto simp: handler_unconditional handler_conditional split: if_splits option.splits)

lemma decorate_error: "decorate ds f = Inl e \<Longrightarrow> e = AssertionError"
  by (induction ds arbitrary: e) (auto split: sum.splits dest: handler_error)

lemma decorate_attr: "decorate ds f = Inr f' \<Longrightarrow> ds \<noteq> [] \<Longrightarrow> hm_attr f' \<noteq> None"
  by (cases ds) (auto split: sum.splits dest: handler_attr)

lemma decorate_conditional:
  "hm_attr f = None \<Longrightarrow> ds \<noteq> [] \<Longrightarrow> [] \<notin> set ds
   \<Longrightarrow> decorate ds f = Inr (f\<lparr>hm_attr := Some (Some (rev ds))\<rparr>)"
proof (induction ds)
  case Nil
  then show ?case by simp
next
  case (Cons d ds)
  then have d: "d \<noteq> []" by auto
  show ?case
  proof (cases "ds = []")
    case True
    with Cons.prems d show ?thesis by (simp add: handler_conditional)
  next
    case False
    with Cons have "decorate ds f = Inr (f\<lparr>hm_attr := Some (Some (rev ds))\<rparr>)" by simp
    with d show ?thesis by (simp add: handler_conditional)
  qed
qed

lemma decorate_violation:
  "hm_attr f = None \<Longrightarrow> [] \<in> set ds \<Longrightarrow> 2 \<le> length ds
   \<Longrightarrow> decorate ds f = Inl AssertionError"
proof (induction ds)
  case Nil
  then show ?case by simp
next
  case (Cons d ds)
  from Cons.prems have ne: "ds \<noteq> []" by auto
  show ?case
  proof (cases "decorate ds f")
    case (Inl e)
    then show ?thesis using decorate_error [OF Inl] by simp
  next
    case (Inr f')
    have attr: "hm_attr f' \<noteq> None" using decorate_attr [OF Inr ne] .
    show ?thesis
    proof (cases "d = []")
      case True
      with Inr attr show ?thesis by (simp add: handler_unconditional)
    next
      case False
      with Cons.prems have in_ds: "[] \<in> set ds" by auto
      have "\<not> 2 \<le> length ds"
        using Cons.IH [OF Cons.prems(1) in_ds] Inr by auto
      moreover have "1 \<le> length ds" using ne by (cases ds) simp_all
      ultimately have "length ds = 1" by arith
      then obtain x where "ds = [x]" by (cases ds) auto
      with in_ds have "ds = [[]]" by simp
      with Inr Cons.prems(1) have "hm_attr f' = Some None"
        by (auto simp: handler_unconditional)
      with Inr False show ?thesis by (simp add: handler_conditional)
    qed
  qed
qed

lemma class_body_error:
  assumes "d \<in> set body" and "decorate (md_decorators d) (new_function d) = Inl e"
  shows "class_body body ns = Inl AssertionError"
  using assms(1)
proof (induction body arbitrary: ns)
  case Nil
  then show ?case by simp
next
  case (Cons d' body)
  show ?case
  proof (cases "decorate (md_decorators d') (new_function d')")
    case (Inl e')
    then show ?thesis using decorate_error [OF Inl] by (simp add: new_function_def)
  next
    case (Inr hm)
    with Cons.prems assms(2) have "d \<in> set body" by auto
    from Cons.IH [OF this] Inr show ?thesis by (simp add: new_function_def)
  qed
qed

text \<open>
  Claim C6. A method whose stack of annotations contains the unconditional annotation
  together with any other annotation (conditional above it, conditional below it, or the
  unconditional one again) makes the decoration raise \<^verbatim>\<open>AssertionError\<close> while the
  class body runs; the class statement raises it and yields no processor type.
\<close>

theorem C6_mixed_annotations_fail:
  assumes "d \<in> set body" and "[] \<in> set (md_decorators d)" and "2 \<le> length (md_decorators d)"
  shows "decorate (md_decorators d) (new_function d) = Inl AssertionError
       \<and> class_statement body = Inl AssertionError
       \<and> (\<forall>ps f. hm_attr f = None \<longrightarrow>
            decorate [[], ps] f = Inl AssertionError
          \<and> decorate [ps, []] f = Inl AssertionError)"
proof -
  have 1: "decorate (md_decorators d) (new_function d) = Inl AssertionError"
    using assms(2,3) by (intro decorate_violation) (simp_all add: new_function_def)
  have 2: "class_statement body = Inl AssertionError"
    by (simp add: class_statement_def class_body_error [OF assms(1) 1])
  have 3: "decorate [[], ps] f = Inl AssertionError \<and> decorate [ps, []] f = Inl AssertionError"
    if "hm_attr f = None" for ps and f :: "'b handler_method"
  proof
    show "decorate [[], ps] f = Inl AssertionError"
      using that by (rule decorate_violation) simp_all
    show "decorate [ps, []] f = Inl AssertionError"
      using that by (rule decorate_violation) simp_all
  qed
  from 1 2 3 show ?thesis by simp
qed

theorem C6_mixed_annotations_fail_witness:
  "[] \<in> set [[], [predicate_mock 1 True]]
   \<and> class_statement
        [\<lparr>md_name = ''handler_with_incorrect_predicates'',
          md_decorators = [[], [predicate_mock 1 True]],
          md_call = (\<lambda>event. Inr PNone)\<rparr>] = Inl AssertionError
   \<and> decorate [[predicate_mock 1 True], []] (handler_returns ''h'' PNone) = Inl AssertionError
   \<and> decorate [[], []] (handler_returns ''h'' PNone) = Inl AssertionError"
proof -
  let ?d = "\<lparr>md_name = ''handler_with_incorrect_predicates'',
          md_decorators = [[], [predicate_mock 1 True]],
          md_call = (\<lambda>event::unit. Inr PNone)\<rparr>"
  have h1: "?d \<in> set [?d]" by simp
  have h2: "[] \<in> set (md_decorators ?d)" by simp
  have h3: "2 \<le> length (md_decorators ?d)" by simp
  have h4: "hm_attr (handler_returns ''h'' PNone) = None" by (simp add: handler_returns_def)
  from C6_mixed_annotations_fail [OF h1 h2 h3] h4
  have "class_statement [?d] = Inl AssertionError"
    "decorate [[predicate_mock 1 True], []] (handler_returns ''h'' PNone) = Inl AssertionError"
    "decorate [[], []] (handler_returns ''h'' PNone) = Inl AssertionError"
    by blast+
  then show ?thesis by simp
qed


text \<open>
  Claim C7. On a method that carries conditional annotations only, each annotation call
  appends its tuple of predicates to the list kept on the method, so that after the whole
  stack the list holds the AND-clauses innermost first, i.e. in the reverse of their
  top-to-bottom order; \<^verbatim>\<open>__init_subclass__\<close> reverses the list once, and the OR-clauses
  of the registry entry are in the top-to-bottom order of the annotations.
\<close>

theorem C7_or_clauses_in_source_order:
  assumes "hm_attr f = None" and "ds \<noteq> []" and "[] \<notin> set ds"
  shows "decorate ds f = Inr (f\<lparr>hm_attr := Some (Some (rev ds))\<rparr>)
       \<and> init_subclass [(n, f\<lparr>hm_attr := Some (Some (rev ds))\<rparr>)]
           = [(Some ds, f\<lparr>hm_attr := Some (Some (rev ds))\<rparr>)]
       \<and> (\<forall>ps g acc. ps \<noteq> [] \<longrightarrow> hm_attr g = Some (Some acc) \<longrightarrow>
             handler ps g = Inr (g\<lparr>hm_attr := Some (Some (acc @ [ps]))\<rparr>))"
proof -
  have 1: "decorate ds f = Inr (f\<lparr>hm_attr := Some (Some (rev ds))\<rparr>)"
    by (rule decorate_conditional [OF assms])
  have 2: "init_subclass [(n, f\<lparr>hm_attr := Some (Some (rev ds))\<rparr>)]
           = [(Some ds, f\<lparr>hm_attr := Some (Some (rev ds))\<rparr>)]"
    by (simp add: init_subclass_def)
  have 3: "handler ps g = Inr (g\<lparr>hm_attr := Some (Some (acc @ [ps]))\<rparr>)"
    if "ps \<noteq> []" "hm_attr g = Some (Some acc)" for ps acc and g :: "'b handler_method"
    using that by (simp add: handler_conditional)
  from 1 2 3 show ?thesis by simp
qed

theorem C7_or_clauses_in_source_order_witness:
  "hm_attr (handler_returns ''handle_event'' PNone) = None
   \<and> [] \<notin> set [[predicate_mock 1 True], [predicate_mock 2 True, predicate_mock 3 False]]
   \<and> decorate [[predicate_mock 1 True], [predicate_mock 2 True, predicate_mock 3 False]]
        (handler_returns ''handle_event'' PNone)
       = Inr ((handler_returns ''handle_event'' PNone)
               \<lparr>hm_attr := Some (Some [[predicate_mock 2 True, predicate_mock 3 False],
                                        [predicate_mock 1 True]])\<rparr>)
   \<and> map fst (init_subclass [(''handle_event'', (handler_returns ''handle_event'' PNone)
               \<lparr>hm_attr := Some (Some [[predicate_mock 2 True, predicate_mock 3 False],
                                        [predicate_mock 1 True]])\<rparr>)])
       = [Some [[predicate_mock 1 True], [predicate_mock 2 True, predicate_mock 3 False]]]"
proof -
  have h1: "hm_attr (handler_returns ''handle_event'' PNone) = None"
    by (simp add: handler_returns_def)
  have h2: "[[predicate_mock 1 True], [predicate_mock 2 True, predicate_mock 3 False]] \<noteq> []"
    by simp
  have h3: "[] \<notin> set [[predicate_mock 1 True], [predicate_mock 2 True, predicate_mock 3 False]]"
    by simp
  have r: "rev [[predicate_mock 1 True], [predicate_mock 2 True, predicate_mock 3 False]]
             = [[predicate_mock 2 True, predicate_mock 3 False], [predicate_mock 1 True]]"
    by simp
  note C = C7_or_clauses_in_source_order [OF h1 h2 h3, of "''handle_event''", unfolded r]
  have c1: "decorate [[predicate_mock 1 True], [predicate_mock 2 True, predicate_mock 3 False]]
        (handler_returns ''handle_event'' PNone)
       = Inr ((handler_returns ''handle_event'' PNone)
               \<lparr>hm_attr := Some (Some [[predicate_mock 2 True, predicate_mock 3 False],
                                        [predicate_mock 1 True]])\<rparr>)"
    by (rule C [THEN conjunct1])
  have c2: "map fst (init_subclass [(''handle_event'', (handler_returns ''handle_event'' PNone)
               \<lparr>hm_attr := Some (Some [[predicate_mock 2 True, predicate_mock 3 False],
                                        [predicate_mock 1 True]])\<rparr>)])
       = [Some [[predicate_mock 1 True], [predicate_mock 2 True, predicate_mock 3 False]]]"
    unfolding C [THEN conjunct2, THEN conjunct1] by simp
  from h1 h3 c1 c2 show ?thesis by blast
qed










end
